theory Spec2Isabelle
  imports Main "HOL-Library.Word"
begin

section \<open>Calls that may block\<close>

text \<open>
  The header \<^verbatim>\<open>Development/nmos/thread_utils.h\<close> holds three small utilities built on
  \<^verbatim>\<open>std::mutex\<close>, \<^verbatim>\<open>std::condition_variable\<close> and \<^verbatim>\<open>std::thread\<close>. Every call
  of the model is seen from the one thread that makes it. Such a call either returns, or
  is still blocked when the observed behaviour of the other threads ends, or throws, or
  has no defined behaviour because a precondition of the standard library was broken.
  The state it leaves behind is returned beside the outcome, so that what was done before
  blocking stays visible.
\<close>

datatype 'a outcome = Returns 'a | Blocks | Throws | Undefined

text \<open>Sequencing: the next statement runs only when the call before it has returned.\<close>

fun and_then :: "'a outcome \<times> 'w \<Rightarrow> ('a \<Rightarrow> 'w \<Rightarrow> 'b outcome \<times> 'w) \<Rightarrow> 'b outcome \<times> 'w" where
  "and_then (Returns a, w) k = k a w"
| "and_then (Blocks, w) k = (Blocks, w)"
| "and_then (Throws, w) k = (Throws, w)"
| "and_then (Undefined, w) k = (Undefined, w)"

lemma and_then_cong [fundef_cong]:
  assumes "r = r'" and "\<And>a w. r' = (Returns a, w) \<Longrightarrow> k a w = k' a w"
  shows "and_then r k = and_then r' k'"
proof (cases r')
  case (Pair out w)
  with assms show ?thesis
    by (cases out) auto
qed

section \<open>The condition variable, as seen by one waiting thread\<close>

text \<open>
  A time point is a tick count of the clock's duration type, a signed machine integer:
  \<^verbatim>\<open>time_point<Clock, Duration>::max()\<close> is the largest value of that representation.
  The width is a parameter, as \<^verbatim>\<open>Duration\<close> is a template parameter; time points are
  compared as signed numbers.
\<close>

definition time_point_max :: "'n::len word" where
  "time_point_max = word_of_int (2 ^ (LENGTH('n) - 1) - 1)"

datatype cv_status = no_timeout | timeout

text \<open>
  What the waiting thread does with the condition variable and the predicate, in order:
  entering either predicate overload, each evaluation of the predicate (with whether the
  lock was owned at that moment, and the value read), and each blocking call.
\<close>

datatype 't cv_event =
    Call_Wait_Pred
  | Call_Wait_Until_Pred 't
  | Pred_Eval bool bool
  | Wait
  | Wait_Until 't

text \<open>
  The waiter's world: the shared state the predicate reads, whether its
  \<^verbatim>\<open>unique_lock\<close> owns the mutex, the clock, and the wake-ups still to come. A wake-up
  \<open>(t, s)\<close> is one return from a blocking wait: the thread resumes at clock reading \<open>t\<close>,
  owns the lock again and finds the shared state \<open>s\<close>, whatever woke it (a notification,
  a spurious wake-up or the passing of time). When no wake-up is left, nothing wakes the
  thread any more: an untimed wait stays blocked, and a timed wait resumes by itself when
  the clock reaches its absolute time.
\<close>

record ('s, 't) waiter =
  shared :: 's
  owns_lock :: bool
  clock :: 't
  wakes :: "('t \<times> 's) list"
  log :: "'t cv_event list"

definition logged :: "'t cv_event \<Rightarrow> ('s, 't) waiter \<Rightarrow> ('s, 't) waiter" where
  "logged e w = w\<lparr>log := log w @ [e]\<rparr>"

definition resume :: "'t \<times> 's \<Rightarrow> ('t \<times> 's) list \<Rightarrow> ('s, 't) waiter \<Rightarrow> ('s, 't) waiter" where
  "resume k rest w = w\<lparr>shared := snd k, clock := fst k, wakes := rest\<rparr>"

text \<open>
  \<^verbatim>\<open>condition_variable::wait(lock)\<close>: the lock must be owned; it is released, the thread
  blocks, and on the next wake-up the lock is owned again.
\<close>

definition cv_wait :: "('s, 't) waiter \<Rightarrow> unit outcome \<times> ('s, 't) waiter" where
  "cv_wait w =
     (if \<not> owns_lock w then (Undefined, w)
      else case wakes w of
             [] \<Rightarrow> (Blocks, (logged Wait w)\<lparr>owns_lock := False\<rparr>)
           | k # rest \<Rightarrow> (Returns (), resume k rest (logged Wait w)))"

text \<open>
  The passing of time alone: the clock moves on to \<open>abs_time\<close>, unless it has already
  reached it, and nothing else changes.
\<close>

definition expire :: "'n::len word \<Rightarrow> ('s, 'n word) waiter \<Rightarrow> ('s, 'n word) waiter" where
  "expire abs_time w = w\<lparr>clock := (if clock w <s abs_time then abs_time else clock w)\<rparr>"

text \<open>
  \<^verbatim>\<open>condition_variable::wait_until(lock, abs_time)\<close>: the lock must be owned; it is
  released and the thread blocks until it is woken or the clock reaches \<open>abs_time\<close>,
  whichever comes first; then the lock is owned again. The status says whether the
  absolute time had been reached when the thread resumed. So the call always returns:
  at the next wake-up, or, when none is left, by the passing of time, at once if
  \<open>abs_time\<close> has already passed.
\<close>

definition cv_wait_until ::
  "'n::len word \<Rightarrow> ('s, 'n word) waiter \<Rightarrow> cv_status outcome \<times> ('s, 'n word) waiter" where
  "cv_wait_until abs_time w =
     (if \<not> owns_lock w then (Undefined, w)
      else case wakes w of
             [] \<Rightarrow> (Returns timeout, expire abs_time (logged (Wait_Until abs_time) w))
           | k # rest \<Rightarrow>
               (Returns (if abs_time \<le>s fst k then timeout else no_timeout),
                resume k rest (logged (Wait_Until abs_time) w)))"

text \<open>A call \<^verbatim>\<open>pred()\<close>: it reads the shared state and changes nothing.\<close>

definition eval_pred :: "('s \<Rightarrow> bool) \<Rightarrow> ('s, 't) waiter \<Rightarrow> bool \<times> ('s, 't) waiter" where
  "eval_pred p w = (p (shared w), logged (Pred_Eval (owns_lock w) (p (shared w))) w)"

text \<open>
  \<^verbatim>\<open>wait(lock, pred)\<close> is specified as \<^verbatim>\<open>while (!pred()) wait(lock);\<close>
\<close>

function cv_wait_loop :: "('s \<Rightarrow> bool) \<Rightarrow> ('s, 't) waiter \<Rightarrow> unit outcome \<times> ('s, 't) waiter" where
  "cv_wait_loop p w =
     (case eval_pred p w of
        (True, w1) \<Rightarrow> (Returns (), w1)
      | (False, w1) \<Rightarrow> and_then (cv_wait w1) (\<lambda>u w2. cv_wait_loop p w2))"
  by pat_completeness auto
termination
  by (relation "measure (\<lambda>(p, w). length (wakes w))")
     (auto simp: eval_pred_def cv_wait_def logged_def resume_def split: if_splits list.splits)

definition cv_wait_pred :: "('s \<Rightarrow> bool) \<Rightarrow> ('s, 't) waiter \<Rightarrow> unit outcome \<times> ('s, 't) waiter" where
  "cv_wait_pred p w = cv_wait_loop p (logged Call_Wait_Pred w)"

text \<open>
  \<^verbatim>\<open>wait_until(lock, abs_time, pred)\<close> is specified as
  \<^verbatim>\<open>while (!pred()) if (wait_until(lock, abs_time) == cv_status::timeout) return pred(); return true;\<close>
\<close>

function cv_wait_until_loop ::
  "'n::len word \<Rightarrow> ('s \<Rightarrow> bool) \<Rightarrow> ('s, 'n word) waiter \<Rightarrow> bool outcome \<times> ('s, 'n word) waiter" where
  "cv_wait_until_loop abs_time p w =
     (case eval_pred p w of
        (True, w1) \<Rightarrow> (Returns True, w1)
      | (False, w1) \<Rightarrow>
          and_then (cv_wait_until abs_time w1)
            (\<lambda>st w2. if st = timeout then (case eval_pred p w2 of (b, w3) \<Rightarrow> (Returns b, w3))
               else cv_wait_until_loop abs_time p w2))"
  by pat_completeness auto
termination
  by (relation "measure (\<lambda>(tp, p, w). length (wakes w))")
     (auto simp: eval_pred_def cv_wait_until_def logged_def resume_def split: if_splits list.splits)

definition cv_wait_until_pred ::
  "'n::len word \<Rightarrow> ('s \<Rightarrow> bool) \<Rightarrow> ('s, 'n word) waiter \<Rightarrow> bool outcome \<times> ('s, 'n word) waiter" where
  "cv_wait_until_pred abs_time p w =
     cv_wait_until_loop abs_time p (logged (Call_Wait_Until_Pred abs_time) w)"

subsection \<open>\<^verbatim>\<open>details::wait_until\<close>\<close>

text \<open>
  The condition variable and the lock are the waiter's world; \<open>tp\<close> and \<open>predicate\<close> are
  the remaining arguments.
\<close>

definition wait_until ::
  "'n::len word \<Rightarrow> ('s \<Rightarrow> bool) \<Rightarrow> ('s, 'n word) waiter \<Rightarrow> bool outcome \<times> ('s, 'n word) waiter" where
  "wait_until tp predicate w =
     (if time_point_max = tp then
        and_then (cv_wait_pred predicate w) (\<lambda>u w'. (Returns True, w'))
      else cv_wait_until_pred tp predicate w)"

text \<open>
  Reading a log: the events a loop adds for the wake-ups it consumes (one blocking call
  and one evaluation of the predicate, with the lock owned, for each), and the events
  that belong to the bounded wait.
\<close>

definition rechecks :: "'t cv_event \<Rightarrow> ('s \<Rightarrow> bool) \<Rightarrow> ('t \<times> 's) list \<Rightarrow> 't cv_event list" where
  "rechecks blocking p ks = concat (map (\<lambda>k. [blocking, Pred_Eval True (p (snd k))]) ks)"

fun is_bounded_call :: "'t cv_event \<Rightarrow> bool" where
  "is_bounded_call (Call_Wait_Until_Pred t) = True"
| "is_bounded_call (Wait_Until t) = True"
| "is_bounded_call e = False"

section \<open>Mutexes and \<^verbatim>\<open>details::reverse_lock_guard\<close>\<close>

text \<open>
  Threads and mutexes are named by numbers; the state of the mutexes says which thread,
  if any, holds each. \<^verbatim>\<open>std::mutex\<close> is the \<^verbatim>\<open>BasicLockable\<close> modelled:
  \<^verbatim>\<open>unlock()\<close> requires the calling thread to hold the mutex, \<^verbatim>\<open>lock()\<close> blocks while
  another thread holds it and is undefined when the caller already does.
\<close>

type_synonym tid = nat
type_synonym mutex_ref = nat
type_synonym mutexes = "mutex_ref \<Rightarrow> tid option"

definition mutex_unlock :: "tid \<Rightarrow> mutex_ref \<Rightarrow> mutexes \<Rightarrow> unit outcome \<times> mutexes" where
  "mutex_unlock me a \<sigma> = (if \<sigma> a = Some me then (Returns (), \<sigma>(a := None)) else (Undefined, \<sigma>))"

definition mutex_lock :: "tid \<Rightarrow> mutex_ref \<Rightarrow> mutexes \<Rightarrow> unit outcome \<times> mutexes" where
  "mutex_lock me a \<sigma> =
     (case \<sigma> a of
        None \<Rightarrow> (Returns (), \<sigma>(a \<mapsto> me))
      | Some t \<Rightarrow> if t = me then (Undefined, \<sigma>) else (Blocks, \<sigma>))"

record reverse_lock_guard =
  m :: mutex_ref

text \<open>
  \<^verbatim>\<open>explicit reverse_lock_guard(mutex_type& m) : m(m) { m.unlock(); }\<close> and
  \<^verbatim>\<open>~reverse_lock_guard() { m.lock(); }\<close>, called by the thread \<open>me\<close>.
\<close>

definition reverse_lock_guard_ctor ::
  "tid \<Rightarrow> mutex_ref \<Rightarrow> mutexes \<Rightarrow> reverse_lock_guard outcome \<times> mutexes" where
  "reverse_lock_guard_ctor me a \<sigma> =
     and_then (mutex_unlock me a \<sigma>) (\<lambda>u \<sigma>'. (Returns \<lparr>m = a\<rparr>, \<sigma>'))"

definition reverse_lock_guard_dtor ::
  "tid \<Rightarrow> reverse_lock_guard \<Rightarrow> mutexes \<Rightarrow> unit outcome \<times> mutexes" where
  "reverse_lock_guard_dtor me g \<sigma> = mutex_lock me (m g) \<sigma>"

text \<open>
  A block \<^verbatim>\<open>{ reverse_lock_guard<M> g(mtx); body }\<close>. The body, together with what the
  other threads do to the mutexes meanwhile, takes the mutexes to a new state and leaves
  the block either normally with a value (\<open>Inr\<close>) or by an exception (\<open>Inl\<close>); the
  language runs the guard's destructor on both ways out.
\<close>

definition inverted_scope ::
  "tid \<Rightarrow> mutex_ref \<Rightarrow> (mutexes \<Rightarrow> ('x + 'a) \<times> mutexes) \<Rightarrow> mutexes \<Rightarrow> ('x + 'a) outcome \<times> mutexes" where
  "inverted_scope me a body \<sigma> =
     and_then (reverse_lock_guard_ctor me a \<sigma>)
       (\<lambda>g \<sigma>1. case body \<sigma>1 of
          (exit, \<sigma>2) \<Rightarrow> and_then (reverse_lock_guard_dtor me g \<sigma>2) (\<lambda>u \<sigma>3. (Returns exit, \<sigma>3)))"

section \<open>Threads and \<^verbatim>\<open>details::thread_guard\<close>\<close>

text \<open>
  A \<^verbatim>\<open>std::thread\<close> handle either stands for a thread of execution (it is joinable) or
  for none. The trace lists what is done to threads and callables, in order. The threads
  in \<open>completing\<close> are those whose body runs to its end without further help: a join of
  such a thread returns, a join of any other stays blocked.
\<close>

datatype ('f, 'pj) thread_event = Start tid 'f | Invoke 'pj | Join tid

record ('f, 'pj) threads =
  next_id :: tid
  completing :: "tid set"
  trace :: "('f, 'pj) thread_event list"

text \<open>
  \<^verbatim>\<open>std::thread(f)\<close> starts a new thread of execution running \<open>f\<close> (the model leaves
  out the failure to start one); \<^verbatim>\<open>joinable()\<close>; \<^verbatim>\<open>join()\<close>, which throws
  \<^verbatim>\<open>std::system_error\<close> on a handle that is not joinable and leaves the handle empty when
  it returns; and the move constructor, which leaves the source empty.
\<close>

definition thread_ctor :: "'f \<Rightarrow> ('f, 'pj) threads \<Rightarrow> tid option \<times> ('f, 'pj) threads" where
  "thread_ctor f \<sigma> =
     (Some (next_id \<sigma>),
      \<sigma>\<lparr>next_id := Suc (next_id \<sigma>), trace := trace \<sigma> @ [Start (next_id \<sigma>) f]\<rparr>)"

definition joinable :: "tid option \<Rightarrow> bool" where
  "joinable h = (h \<noteq> None)"

definition thread_join ::
  "tid option \<Rightarrow> ('f, 'pj) threads \<Rightarrow> tid option outcome \<times> ('f, 'pj) threads" where
  "thread_join h \<sigma> =
     (case h of
        None \<Rightarrow> (Throws, \<sigma>)
      | Some t \<Rightarrow>
          (if t \<in> completing \<sigma> then Returns None else Blocks, \<sigma>\<lparr>trace := trace \<sigma> @ [Join t]\<rparr>))"

definition thread_move :: "tid option \<Rightarrow> tid option \<times> tid option" where
  "thread_move h = (h, None)"

text \<open>
  A call \<^verbatim>\<open>pj()\<close> of a callable. What it does to the threads is a parameter: \<open>run pj\<close>
  says which threads run to their end once \<open>pj\<close> has been called.
\<close>

definition invoke ::
  "('pj \<Rightarrow> tid set \<Rightarrow> tid set) \<Rightarrow> 'pj \<Rightarrow> ('f, 'pj) threads \<Rightarrow> unit outcome \<times> ('f, 'pj) threads" where
  "invoke run pj \<sigma> =
     (Returns (), \<sigma>\<lparr>completing := run pj (completing \<sigma>), trace := trace \<sigma> @ [Invoke pj]\<rparr>)"

record 'pj thread_guard =
  thread :: "tid option"
  pre_join :: 'pj

text \<open>
  \<^verbatim>\<open>thread_guard(Function f, PreJoin pre_join) : thread(f), pre_join(pre_join) {}\<close>
\<close>

definition thread_guard_ctor ::
  "'f \<Rightarrow> 'pj \<Rightarrow> ('f, 'pj) threads \<Rightarrow> 'pj thread_guard \<times> ('f, 'pj) threads" where
  "thread_guard_ctor f pj \<sigma> =
     (case thread_ctor f \<sigma> of (h, \<sigma>') \<Rightarrow> (\<lparr>thread = h, pre_join = pj\<rparr>, \<sigma>'))"

text \<open>
  \<^verbatim>\<open>thread_guard(thread_guard&& rhs) : thread(std::move(rhs.thread)), pre_join(std::move(rhs.pre_join)) {}\<close>
  gives the new guard and what is left of \<open>rhs\<close>. The state in which the move constructor
  of \<^verbatim>\<open>PreJoin\<close> leaves its source depends on that type and is the parameter
  \<open>moved_from\<close>: the identity for a function pointer or a closure that captures
  references.
\<close>

definition thread_guard_move ::
  "('pj \<Rightarrow> 'pj) \<Rightarrow> 'pj thread_guard \<Rightarrow> 'pj thread_guard \<times> 'pj thread_guard" where
  "thread_guard_move moved_from rhs =
     (case thread_move (thread rhs) of
        (h, h_left) \<Rightarrow>
          (\<lparr>thread = h, pre_join = pre_join rhs\<rparr>,
           \<lparr>thread = h_left, pre_join = moved_from (pre_join rhs)\<rparr>))"

text \<open>
  \<^verbatim>\<open>~thread_guard() { pre_join(); if (thread.joinable()) thread.join(); }\<close>
\<close>

definition thread_guard_dtor ::
  "('pj \<Rightarrow> tid set \<Rightarrow> tid set) \<Rightarrow> 'pj thread_guard \<Rightarrow> ('f, 'pj) threads \<Rightarrow> unit outcome \<times> ('f, 'pj) threads" where
  "thread_guard_dtor run g \<sigma> =
     and_then (invoke run (pre_join g) \<sigma>)
       (\<lambda>u \<sigma>1. if joinable (thread g)
          then and_then (thread_join (thread g) \<sigma>1) (\<lambda>h \<sigma>2. (Returns (), \<sigma>2))
          else (Returns (), \<sigma>1))"

text \<open>
  The special member functions the class declares besides its constructor: the move
  constructor and the destructor are defined, the copy constructor and both assignment
  operators are \<^verbatim>\<open>= delete\<close>.
\<close>

datatype special_member = Copy_Ctor | Copy_Assign | Move_Ctor | Move_Assign | Dtor

datatype member_decl = Defined | Deleted

fun thread_guard_declares :: "special_member \<Rightarrow> member_decl" where
  "thread_guard_declares Move_Ctor = Defined"
| "thread_guard_declares Dtor = Defined"
| "thread_guard_declares Copy_Ctor = Deleted"
| "thread_guard_declares Copy_Assign = Deleted"
| "thread_guard_declares Move_Assign = Deleted"

text \<open>
  \<^verbatim>\<open>make_thread_guard(Function f, PreJoin pj) { return{ f, pj }; }\<close>: the returned guard
  is initialised from the braced list by the constructor above.
\<close>

definition make_thread_guard ::
  "'f \<Rightarrow> 'pj \<Rightarrow> ('f, 'pj) threads \<Rightarrow> 'pj thread_guard \<times> ('f, 'pj) threads" where
  "make_thread_guard f pj \<sigma> = thread_guard_ctor f pj \<sigma>"

section \<open>Properties of the waits\<close>

declare cv_wait_loop.simps [simp del] cv_wait_until_loop.simps [simp del]

lemma resume_simps [simp]:
  "shared (resume k rest w) = snd k" "clock (resume k rest w) = fst k"
  "wakes (resume k rest w) = rest" "owns_lock (resume k rest w) = owns_lock w"
  "log (resume k rest w) = log w"
  by (simp_all add: resume_def)

lemma logged_simps [simp]:
  "shared (logged e w) = shared w" "clock (logged e w) = clock w"
  "wakes (logged e w) = wakes w" "owns_lock (logged e w) = owns_lock w"
  "log (logged e w) = log w @ [e]"
  by (simp_all add: logged_def)

lemma expire_simps [simp]:
  "shared (expire tp w) = shared w" "wakes (expire tp w) = wakes w"
  "owns_lock (expire tp w) = owns_lock w" "log (expire tp w) = log w"
  "clock (expire tp w) = (if clock w <s tp then tp else clock w)"
  by (simp_all add: expire_def)

lemma rechecks_simps [simp]:
  "rechecks e p [] = []"
  "rechecks e p (k # ks) = e # Pred_Eval True (p (snd k)) # rechecks e p ks"
  by (simp_all add: rechecks_def)

subsection \<open>The unbounded loop\<close>

lemma cv_wait_loop_true:
  "p (shared w) \<Longrightarrow> cv_wait_loop p w = (Returns (), logged (Pred_Eval (owns_lock w) True) w)"
  by (subst cv_wait_loop.simps) (simp add: eval_pred_def)

lemma cv_wait_loop_unowned:
  "\<not> p (shared w) \<Longrightarrow> \<not> owns_lock w \<Longrightarrow>
   cv_wait_loop p w = (Undefined, logged (Pred_Eval False False) w)"
  by (subst cv_wait_loop.simps) (simp add: eval_pred_def cv_wait_def)

lemma cv_wait_loop_nil:
  "\<not> p (shared w) \<Longrightarrow> owns_lock w \<Longrightarrow> wakes w = [] \<Longrightarrow>
   cv_wait_loop p w = (Blocks, (logged Wait (logged (Pred_Eval True False) w))\<lparr>owns_lock := False\<rparr>)"
  by (subst cv_wait_loop.simps) (simp add: eval_pred_def cv_wait_def)

lemma cv_wait_loop_cons:
  "\<not> p (shared w) \<Longrightarrow> owns_lock w \<Longrightarrow> wakes w = k # rest \<Longrightarrow>
   cv_wait_loop p w = cv_wait_loop p (resume k rest (logged Wait (logged (Pred_Eval True False) w)))"
  by (subst cv_wait_loop.simps) (simp add: eval_pred_def cv_wait_def)

text \<open>Induction along the wake-ups a waiting thread consumes.\<close>

lemma wakes_induct [consumes 1, case_names holds exhausted woken]:
  assumes own: "owns_lock w"
    and holds: "\<And>w. owns_lock w \<Longrightarrow> p (shared w) \<Longrightarrow> P w"
    and exhausted: "\<And>w. owns_lock w \<Longrightarrow> \<not> p (shared w) \<Longrightarrow> wakes w = [] \<Longrightarrow> P w"
    and woken: "\<And>w k rest. owns_lock w \<Longrightarrow> \<not> p (shared w) \<Longrightarrow> wakes w = k # rest \<Longrightarrow>
       (\<And>e. P (resume k rest (logged e (logged (Pred_Eval True False) w)))) \<Longrightarrow> P w"
  shows "P w"
  using own
proof (induction "wakes w" arbitrary: w)
  case Nil
  then show ?case
    by (cases "p (shared w)") (simp_all add: holds exhausted)
next
  case (Cons k rest)
  show ?case
  proof (cases "p (shared w)")
    case True
    with Cons.prems show ?thesis by (rule holds)
  next
    case False
    show ?thesis
    proof (rule woken [OF Cons.prems False Cons.hyps(2) [symmetric]])
      fix e
      show "P (resume k rest (logged e (logged (Pred_Eval True False) w)))"
        using Cons.prems by (intro Cons.hyps(1)) simp_all
    qed
  qed
qed

lemma cv_wait_loop_stops:
  assumes "owns_lock w"
  shows "if p (shared w) then cv_wait_loop p w = (Returns (), logged (Pred_Eval True True) w)
     else (case dropWhile (\<lambda>k. \<not> p (snd k)) (wakes w) of
             [] \<Rightarrow> fst (cv_wait_loop p w) = Blocks \<and> wakes (snd (cv_wait_loop p w)) = []
               \<and> \<not> owns_lock (snd (cv_wait_loop p w))
           | k # rest \<Rightarrow> fst (cv_wait_loop p w) = Returns () \<and> shared (snd (cv_wait_loop p w)) = snd k
               \<and> clock (snd (cv_wait_loop p w)) = fst k \<and> wakes (snd (cv_wait_loop p w)) = rest
               \<and> owns_lock (snd (cv_wait_loop p w)))"
  using assms
proof (induction w rule: wakes_induct [where p = p])
  case (holds w)
  then show ?case by (simp add: cv_wait_loop_true)
next
  case (exhausted w)
  then show ?case by (simp add: cv_wait_loop_nil)
next
  case (woken w k rest)
  let ?w = "resume k rest (logged Wait (logged (Pred_Eval True False) w))"
  have eq: "cv_wait_loop p w = cv_wait_loop p ?w"
    using woken by (simp add: cv_wait_loop_cons)
  show ?case
  proof (cases "p (snd k)")
    case True
    then show ?thesis
      using woken(1-3) by (simp add: eq cv_wait_loop_true)
  next
    case False
    then show ?thesis
      unfolding eq using woken(1-3) woken(4) [of Wait] by simp
  qed
qed

lemma cv_wait_loop_log:
  assumes "owns_lock w"
  shows "\<exists>consumed. wakes w = consumed @ wakes (snd (cv_wait_loop p w)) \<and>
     log (snd (cv_wait_loop p w)) =
       log w @ Pred_Eval True (p (shared w)) # rechecks Wait p consumed
         @ (if fst (cv_wait_loop p w) = Blocks then [Wait] else [])"
  using assms
proof (induction w rule: wakes_induct [where p = p])
  case (holds w)
  then show ?case by (simp add: cv_wait_loop_true)
next
  case (exhausted w)
  then show ?case by (simp add: cv_wait_loop_nil)
next
  case (woken w k rest)
  let ?w = "resume k rest (logged Wait (logged (Pred_Eval True False) w))"
  have eq: "cv_wait_loop p w = cv_wait_loop p ?w"
    using woken by (simp add: cv_wait_loop_cons)
  from woken(4) [of Wait] obtain consumed where
    c: "rest = consumed @ wakes (snd (cv_wait_loop p ?w))"
      "log (snd (cv_wait_loop p ?w)) =
         (log w @ [Pred_Eval True False, Wait]) @ Pred_Eval True (p (snd k)) # rechecks Wait p consumed
           @ (if fst (cv_wait_loop p ?w) = Blocks then [Wait] else [])"
    by auto
  show ?case
    apply (rule exI [of _ "k # consumed"])
    using woken(2,3) c by (simp add: eq)
qed

subsection \<open>The bounded loop\<close>

lemma cv_wait_until_loop_true:
  "p (shared w) \<Longrightarrow>
   cv_wait_until_loop tp p w = (Returns True, logged (Pred_Eval (owns_lock w) True) w)"
  by (subst cv_wait_until_loop.simps) (simp add: eval_pred_def)

lemma cv_wait_until_loop_unowned:
  "\<not> p (shared w) \<Longrightarrow> \<not> owns_lock w \<Longrightarrow>
   cv_wait_until_loop tp p w = (Undefined, logged (Pred_Eval False False) w)"
  by (subst cv_wait_until_loop.simps) (simp add: eval_pred_def cv_wait_until_def)

lemma cv_wait_until_loop_nil:
  "\<not> p (shared w) \<Longrightarrow> owns_lock w \<Longrightarrow> wakes w = [] \<Longrightarrow>
   cv_wait_until_loop tp p w =
     (Returns False,
      logged (Pred_Eval True False)
        (expire tp (logged (Wait_Until tp) (logged (Pred_Eval True False) w))))"
  by (subst cv_wait_until_loop.simps) (simp add: eval_pred_def cv_wait_until_def)

lemma cv_wait_until_loop_timeout:
  "\<not> p (shared w) \<Longrightarrow> owns_lock w \<Longrightarrow> wakes w = k # rest \<Longrightarrow> tp \<le>s fst k \<Longrightarrow>
   cv_wait_until_loop tp p w =
     (Returns (p (snd k)),
      logged (Pred_Eval True (p (snd k)))
        (resume k rest (logged (Wait_Until tp) (logged (Pred_Eval True False) w))))"
  by (subst cv_wait_until_loop.simps) (simp add: eval_pred_def cv_wait_until_def)

lemma cv_wait_until_loop_no_timeout:
  "\<not> p (shared w) \<Longrightarrow> owns_lock w \<Longrightarrow> wakes w = k # rest \<Longrightarrow> \<not> tp \<le>s fst k \<Longrightarrow>
   cv_wait_until_loop tp p w =
     cv_wait_until_loop tp p (resume k rest (logged (Wait_Until tp) (logged (Pred_Eval True False) w)))"
  by (subst cv_wait_until_loop.simps) (simp add: eval_pred_def cv_wait_until_def)

lemma cv_wait_until_loop_stops:
  assumes "owns_lock w"
  shows "if p (shared w)
     then cv_wait_until_loop tp p w = (Returns True, logged (Pred_Eval True True) w)
     else (case dropWhile (\<lambda>k. \<not> p (snd k) \<and> \<not> tp \<le>s fst k) (wakes w) of
             [] \<Rightarrow> fst (cv_wait_until_loop tp p w) = Returns False
               \<and> \<not> p (shared (snd (cv_wait_until_loop tp p w)))
               \<and> tp \<le>s clock (snd (cv_wait_until_loop tp p w))
               \<and> wakes (snd (cv_wait_until_loop tp p w)) = []
               \<and> owns_lock (snd (cv_wait_until_loop tp p w))
           | k # rest \<Rightarrow> fst (cv_wait_until_loop tp p w) = Returns (p (snd k))
               \<and> shared (snd (cv_wait_until_loop tp p w)) = snd k
               \<and> clock (snd (cv_wait_until_loop tp p w)) = fst k
               \<and> wakes (snd (cv_wait_until_loop tp p w)) = rest
               \<and> owns_lock (snd (cv_wait_until_loop tp p w)))"
  using assms
proof (induction w rule: wakes_induct [where p = p])
  case (holds w)
  then show ?case by (simp add: cv_wait_until_loop_true)
next
  case (exhausted w)
  then show ?case by (simp add: cv_wait_until_loop_nil word_sle_eq word_sless_alt)
next
  case (woken w k rest)
  let ?w = "resume k rest (logged (Wait_Until tp) (logged (Pred_Eval True False) w))"
  show ?case
  proof (cases "tp \<le>s fst k")
    case True
    then show ?thesis
      using woken(1-3) by (simp add: cv_wait_until_loop_timeout)
  next
    case late: False
    have eq: "cv_wait_until_loop tp p w = cv_wait_until_loop tp p ?w"
      using woken late by (simp add: cv_wait_until_loop_no_timeout)
    show ?thesis
    proof (cases "p (snd k)")
      case True
      then show ?thesis
        using woken(1-3) by (simp add: eq cv_wait_until_loop_true)
    next
      case False
      then show ?thesis
        unfolding eq using late woken(1-3) woken(4) [of "Wait_Until tp"] by simp
    qed
  qed
qed

text \<open>
  When every wake-up comes before the deadline and finds the predicate false, the wait
  ends by the passing of time, in the state the last wake-up left.
\<close>

lemma cv_wait_until_loop_expires:
  assumes "owns_lock w"
  shows "\<not> p (shared w) \<longrightarrow> (\<forall>k \<in> set (wakes w). \<not> p (snd k) \<and> \<not> tp \<le>s fst k) \<longrightarrow>
     shared (snd (cv_wait_until_loop tp p w)) = last (shared w # map snd (wakes w))
     \<and> clock (snd (cv_wait_until_loop tp p w)) =
         (if wakes w = [] \<and> \<not> clock w <s tp then clock w else tp)"
  using assms
proof (induction w rule: wakes_induct [where p = p])
  case (holds w)
  then show ?case by simp
next
  case (exhausted w)
  then show ?case by (simp add: cv_wait_until_loop_nil)
next
  case (woken w k rest)
  let ?w = "resume k rest (logged (Wait_Until tp) (logged (Pred_Eval True False) w))"
  show ?case
  proof (intro impI)
    assume early: "\<forall>k \<in> set (wakes w). \<not> p (snd k) \<and> \<not> tp \<le>s fst k"
    then have k: "\<not> p (snd k)" "\<not> tp \<le>s fst k"
      and rest: "\<forall>k \<in> set rest. \<not> p (snd k) \<and> \<not> tp \<le>s fst k"
      using woken(3) by simp_all
    have eq: "cv_wait_until_loop tp p w = cv_wait_until_loop tp p ?w"
      using woken(1-3) k by (simp add: cv_wait_until_loop_no_timeout)
    have before: "fst k <s tp"
      using k(2) by (simp add: word_sle_eq word_sless_alt)
    from woken(4) [of "Wait_Until tp"] k rest
    have "shared (snd (cv_wait_until_loop tp p ?w)) = last (snd k # map snd rest)"
      and "clock (snd (cv_wait_until_loop tp p ?w)) = (if rest = [] \<and> \<not> fst k <s tp then fst k else tp)"
      by simp_all
    then show "shared (snd (cv_wait_until_loop tp p w)) = last (shared w # map snd (wakes w))
       \<and> clock (snd (cv_wait_until_loop tp p w)) =
           (if wakes w = [] \<and> \<not> clock w <s tp then clock w else tp)"
      using before woken(3) by (simp add: eq)
  qed
qed

lemma cv_wait_until_loop_log:
  assumes "owns_lock w"
  shows "\<exists>consumed expiry. wakes w = consumed @ wakes (snd (cv_wait_until_loop tp p w)) \<and>
     log (snd (cv_wait_until_loop tp p w)) =
       log w @ Pred_Eval True (p (shared w)) # rechecks (Wait_Until tp) p consumed @ expiry \<and>
     (expiry = [] \<or> expiry = [Wait_Until tp, Pred_Eval True False])"
  using assms
proof (induction w rule: wakes_induct [where p = p])
  case (holds w)
  then show ?case by (simp add: cv_wait_until_loop_true)
next
  case (exhausted w)
  show ?case
    apply (rule exI [of _ "[]"])
    apply (rule exI [of _ "[Wait_Until tp, Pred_Eval True False]"])
    using exhausted by (simp add: cv_wait_until_loop_nil)
next
  case (woken w k rest)
  let ?w = "resume k rest (logged (Wait_Until tp) (logged (Pred_Eval True False) w))"
  show ?case
  proof (cases "tp \<le>s fst k")
    case True
    show ?thesis
      apply (rule exI [of _ "[k]"])
      apply (rule exI [of _ "[]"])
      using True woken(1-3) by (simp add: cv_wait_until_loop_timeout)
  next
    case False
    then have eq: "cv_wait_until_loop tp p w = cv_wait_until_loop tp p ?w"
      using woken by (simp add: cv_wait_until_loop_no_timeout)
    from woken(4) [of "Wait_Until tp"] obtain consumed expiry where
      c: "rest = consumed @ wakes (snd (cv_wait_until_loop tp p ?w))"
        "log (snd (cv_wait_until_loop tp p ?w)) =
           (log w @ [Pred_Eval True False, Wait_Until tp]) @ Pred_Eval True (p (snd k))
             # rechecks (Wait_Until tp) p consumed @ expiry"
        "expiry = [] \<or> expiry = [Wait_Until tp, Pred_Eval True False]"
      by auto
    show ?thesis
      apply (rule exI [of _ "k # consumed"])
      apply (rule exI [of _ expiry])
      using woken(2,3) c by (simp add: eq)
  qed
qed


lemma dropWhile_head: "dropWhile P xs = k # rest \<Longrightarrow> \<not> P k"
  using hd_dropWhile [of P xs] by auto

subsection \<open>The largest time point\<close>

lemma sint_time_point_max:
  "sint (time_point_max :: 'n::len word) = 2 ^ (LENGTH('n) - 1) - 1"
  unfolding time_point_max_def sint_sbintrunc'
  by (rule signed_take_bit_int_eq_self) simp_all

lemma below_time_point_max: "tp \<noteq> time_point_max \<longleftrightarrow> tp <s time_point_max"
proof
  assume "tp \<noteq> time_point_max"
  then have "sint tp \<noteq> sint (time_point_max :: 'a word)"
    by (auto dest: signed_word_eqI)
  moreover have "sint tp < 2 ^ (LENGTH('a) - 1)"
    by (rule sint_lt)
  ultimately show "tp <s time_point_max"
    by (simp add: word_sless_alt sint_time_point_max)
next
  assume "tp <s time_point_max"
  then show "tp \<noteq> time_point_max"
    by (auto simp: word_sless_alt)
qed

lemma le_time_point_max: "tp \<le>s time_point_max"
  using sint_lt [of tp] by (simp add: word_sle_eq sint_time_point_max)

subsection \<open>The two branches of \<^verbatim>\<open>wait_until\<close>\<close>

lemma and_then_const:
  "and_then r (\<lambda>u w'. (Returns c, w')) =
     (case fst r of Returns u \<Rightarrow> Returns c | Blocks \<Rightarrow> Blocks | Throws \<Rightarrow> Throws
      | Undefined \<Rightarrow> Undefined, snd r)"
  by (cases r; cases "fst r") auto

lemma wait_until_max:
  "wait_until time_point_max p w =
     and_then (cv_wait_loop p (logged Call_Wait_Pred w)) (\<lambda>u w'. (Returns True, w'))"
  by (simp add: wait_until_def cv_wait_pred_def)

lemma wait_until_not_max:
  "tp \<noteq> time_point_max \<Longrightarrow>
   wait_until tp p w = cv_wait_until_loop tp p (logged (Call_Wait_Until_Pred tp) w)"
  by (auto simp: wait_until_def cv_wait_until_pred_def)

lemma filter_rechecks_Wait [simp]: "filter is_bounded_call (rechecks Wait p ks) = []"
  by (induction ks) simp_all

lemma cv_wait_loop_log_any:
  "\<exists>evs. log (snd (cv_wait_loop p w)) = log w @ evs \<and> filter is_bounded_call evs = []"
proof (cases "owns_lock w")
  case True
  from cv_wait_loop_log [OF this, of p] show ?thesis
    by auto
next
  case False
  then show ?thesis
    by (cases "p (shared w)") (simp_all add: cv_wait_loop_true cv_wait_loop_unowned)
qed

section \<open>Claims about \<^verbatim>\<open>wait_until\<close>\<close>

text \<open>
  Claim C2. When the deadline is the largest time point and the caller owns the lock,
  the wait is unbounded. It never returns \<open>false\<close>. If the predicate holds at the call
  it returns \<open>true\<close> at once; otherwise it returns \<open>true\<close> at the first wake-up at which
  the predicate holds, and is still blocked if there is none: a wake-up that finds the
  predicate false never makes it return. The log shows one evaluation of the predicate,
  with the lock owned, at the call and one after every wake-up consumed.
\<close>

theorem wait_until_max_unbounded:
  assumes "owns_lock w"
  shows "fst (wait_until time_point_max p w) \<noteq> Returns False
    \<and> (if p (shared w)
       then wait_until time_point_max p w =
              (Returns True, logged (Pred_Eval True True) (logged Call_Wait_Pred w))
       else (case dropWhile (\<lambda>k. \<not> p (snd k)) (wakes w) of
               [] \<Rightarrow> fst (wait_until time_point_max p w) = Blocks
                 \<and> wakes (snd (wait_until time_point_max p w)) = []
             | k # rest \<Rightarrow> fst (wait_until time_point_max p w) = Returns True
                 \<and> shared (snd (wait_until time_point_max p w)) = snd k
                 \<and> clock (snd (wait_until time_point_max p w)) = fst k
                 \<and> wakes (snd (wait_until time_point_max p w)) = rest
                 \<and> owns_lock (snd (wait_until time_point_max p w))))
    \<and> (\<exists>consumed. wakes w = consumed @ wakes (snd (wait_until time_point_max p w))
         \<and> log (snd (wait_until time_point_max p w)) =
             log w @ Call_Wait_Pred # Pred_Eval True (p (shared w)) # rechecks Wait p consumed
               @ (if fst (wait_until time_point_max p w) = Blocks then [Wait] else []))"
proof -
  let ?w = "logged Call_Wait_Pred w"
  have own: "owns_lock ?w"
    using assms by simp
  have never: "fst (wait_until time_point_max p w) \<noteq> Returns False"
    by (simp add: wait_until_max and_then_const split: outcome.splits)
  have stops: "if p (shared w)
       then wait_until time_point_max p w =
              (Returns True, logged (Pred_Eval True True) (logged Call_Wait_Pred w))
       else (case dropWhile (\<lambda>k. \<not> p (snd k)) (wakes w) of
               [] \<Rightarrow> fst (wait_until time_point_max p w) = Blocks
                 \<and> wakes (snd (wait_until time_point_max p w)) = []
             | k # rest \<Rightarrow> fst (wait_until time_point_max p w) = Returns True
                 \<and> shared (snd (wait_until time_point_max p w)) = snd k
                 \<and> clock (snd (wait_until time_point_max p w)) = fst k
                 \<and> wakes (snd (wait_until time_point_max p w)) = rest
                 \<and> owns_lock (snd (wait_until time_point_max p w)))"
  proof (cases "p (shared w)")
    case True
    then show ?thesis
      using cv_wait_loop_stops [OF own, of p] by (simp add: wait_until_max)
  next
    case False
    then show ?thesis
      using cv_wait_loop_stops [OF own, of p]
      by (cases "dropWhile (\<lambda>k. \<not> p (snd k)) (wakes w)") (simp_all add: wait_until_max and_then_const del: dropWhile_eq_Nil_conv)
  qed
  have blocks_eq: "fst (wait_until time_point_max p w) = Blocks \<longleftrightarrow> fst (cv_wait_loop p ?w) = Blocks"
    by (simp add: wait_until_max and_then_const split: outcome.splits)
  have logs: "\<exists>consumed. wakes w = consumed @ wakes (snd (wait_until time_point_max p w))
         \<and> log (snd (wait_until time_point_max p w)) =
             log w @ Call_Wait_Pred # Pred_Eval True (p (shared w)) # rechecks Wait p consumed
               @ (if fst (wait_until time_point_max p w) = Blocks then [Wait] else [])"
    using cv_wait_loop_log [OF own, of p] unfolding blocks_eq
    by (simp add: wait_until_max and_then_const)
  from never stops logs show ?thesis
    by blast
qed

theorem wait_until_max_unbounded_witness:
  "owns_lock \<lparr>shared = 0::nat, owns_lock = True, clock = 0::64 word,
       wakes = [(5, 0), (7, 1), (9, 2)], log = []\<rparr>
   \<and> wait_until time_point_max (\<lambda>s. s = 1)
         \<lparr>shared = 0::nat, owns_lock = True, clock = 0::64 word,
          wakes = [(5, 0), (7, 1), (9, 2)], log = []\<rparr>
       = (Returns True,
          \<lparr>shared = 1, owns_lock = True, clock = 7, wakes = [(9, 2)],
           log = [Call_Wait_Pred, Pred_Eval True False, Wait, Pred_Eval True False, Wait,
                  Pred_Eval True True]\<rparr>)"
  using wait_until_max_unbounded
    [of "\<lparr>shared = 0::nat, owns_lock = True, clock = 0::64 word,
          wakes = [(5, 0), (7, 1), (9, 2)], log = []\<rparr>" "\<lambda>s. s = 1"]
  by (auto simp: prod_eq_iff append_eq_append_conv2 append_eq_Cons_conv Cons_eq_append_conv)

text \<open>
  Claim C3. When the deadline is not the largest time point and the caller owns the lock,
  the wait is bounded: it always returns. If the predicate holds at the call it returns
  \<open>true\<close> at once. Otherwise it stays blocked over every wake-up that finds the
  predicate false before the deadline, and returns at the first wake-up at which the
  predicate holds or the clock has reached the deadline, with the value the predicate has
  then. When no such wake-up comes, it returns \<open>false\<close> by the passing of time, in the
  state the last wake-up left, with the clock at the deadline (or where it was, if the
  deadline had passed before the call). So a returned \<open>true\<close> means the predicate holds
  in the state left behind, and a returned \<open>false\<close> means the deadline has been reached
  and the predicate is still false.
\<close>

theorem wait_until_bounded:
  assumes "tp \<noteq> time_point_max" and "owns_lock w"
  shows "(\<exists>b. fst (wait_until tp p w) = Returns b)
    \<and> (if p (shared w)
       then wait_until tp p w =
              (Returns True, logged (Pred_Eval True True) (logged (Call_Wait_Until_Pred tp) w))
       else (case dropWhile (\<lambda>k. \<not> p (snd k) \<and> \<not> tp \<le>s fst k) (wakes w) of
               [] \<Rightarrow> fst (wait_until tp p w) = Returns False
                 \<and> shared (snd (wait_until tp p w)) = last (shared w # map snd (wakes w))
                 \<and> clock (snd (wait_until tp p w)) =
                     (if wakes w = [] \<and> \<not> clock w <s tp then clock w else tp)
                 \<and> wakes (snd (wait_until tp p w)) = []
                 \<and> owns_lock (snd (wait_until tp p w))
             | k # rest \<Rightarrow> fst (wait_until tp p w) = Returns (p (snd k))
                 \<and> shared (snd (wait_until tp p w)) = snd k
                 \<and> clock (snd (wait_until tp p w)) = fst k
                 \<and> wakes (snd (wait_until tp p w)) = rest
                 \<and> owns_lock (snd (wait_until tp p w))))
    \<and> (\<forall>b. fst (wait_until tp p w) = Returns b \<longrightarrow> b = p (shared (snd (wait_until tp p w))))
    \<and> (fst (wait_until tp p w) = Returns False \<longrightarrow> tp \<le>s clock (snd (wait_until tp p w)))"
proof -
  let ?w = "logged (Call_Wait_Until_Pred tp) w"
  let ?r = "wait_until tp p w"
  let ?stay = "\<lambda>k. \<not> p (snd k) \<and> \<not> tp \<le>s fst k"
  have own: "owns_lock ?w"
    using assms by simp
  have eq: "?r = cv_wait_until_loop tp p ?w"
    using assms(1) by (rule wait_until_not_max)
  note stops = cv_wait_until_loop_stops [OF own, of p tp, folded eq]
  note expires = cv_wait_until_loop_expires [OF own, of p tp, folded eq]
  have [simp]: "\<exists>b::bool. b" "\<exists>b::bool. \<not> b"
    by blast+
  show ?thesis
  proof (cases "p (shared w)")
    case True
    then show ?thesis
      using stops by simp
  next
    case False
    show ?thesis
    proof (cases "dropWhile ?stay (wakes w)")
      case Nil
      then have early: "\<forall>k \<in> set (wakes w). \<not> p (snd k) \<and> \<not> tp \<le>s fst k"
        by simp
      have left: "shared (snd ?r) = last (shared w # map snd (wakes w))"
        "clock (snd ?r) = (if wakes w = [] \<and> \<not> clock w <s tp then clock w else tp)"
        using expires False early by simp_all
      have "fst ?r = Returns False" "\<not> p (shared (snd ?r))" "tp \<le>s clock (snd ?r)"
        "wakes (snd ?r) = []" "owns_lock (snd ?r)"
        using stops False Nil by (simp_all del: dropWhile_eq_Nil_conv)
      with left show ?thesis
        using False Nil by (simp del: dropWhile_eq_Nil_conv)
    next
      case (Cons k rest)
      then have "p (snd k) \<or> tp \<le>s fst k"
        by (auto dest: dropWhile_head)
      then show ?thesis
        using False stops Cons by auto
    qed
  qed
qed

theorem wait_until_bounded_witness:
  "(6::64 word) \<noteq> time_point_max
   \<and> owns_lock \<lparr>shared = 0::nat, owns_lock = True, clock = 0::64 word,
       wakes = [(5, 0), (7, 2), (9, 1)], log = []\<rparr>
   \<and> fst (wait_until 6 (\<lambda>s. s = 1)
         \<lparr>shared = 0::nat, owns_lock = True, clock = 0::64 word,
          wakes = [(5, 0), (7, 2), (9, 1)], log = []\<rparr>) = Returns False
   \<and> clock (snd (wait_until 6 (\<lambda>s. s = 1)
         \<lparr>shared = 0::nat, owns_lock = True, clock = 0::64 word,
          wakes = [(5, 0), (7, 2), (9, 1)], log = []\<rparr>)) = 7
   \<and> wakes (snd (wait_until 6 (\<lambda>s. s = 1)
         \<lparr>shared = 0::nat, owns_lock = True, clock = 0::64 word,
          wakes = [(5, 0), (7, 2), (9, 1)], log = []\<rparr>)) = [(9, 1)]
   \<and> fst (wait_until 6 (\<lambda>s. s = 1)
         \<lparr>shared = 0::nat, owns_lock = True, clock = 10::64 word, wakes = [], log = []\<rparr>)
       = Returns False
   \<and> clock (snd (wait_until 6 (\<lambda>s. s = 1)
         \<lparr>shared = 0::nat, owns_lock = True, clock = 10::64 word, wakes = [], log = []\<rparr>))
       = 10
   \<and> fst (wait_until 6 (\<lambda>s. s = 1)
         \<lparr>shared = 0::nat, owns_lock = True, clock = 0::64 word, wakes = [(5, 0)], log = []\<rparr>)
       = Returns False
   \<and> clock (snd (wait_until 6 (\<lambda>s. s = 1)
         \<lparr>shared = 0::nat, owns_lock = True, clock = 0::64 word, wakes = [(5, 0)], log = []\<rparr>))
       = 6"
proof -
  have finite: "(6::64 word) \<noteq> time_point_max"
    by (simp add: time_point_max_def)
  have woken: "fst (wait_until 6 (\<lambda>s. s = 1)
         \<lparr>shared = 0::nat, owns_lock = True, clock = 0::64 word,
          wakes = [(5, 0), (7, 2), (9, 1)], log = []\<rparr>) = Returns False
    \<and> clock (snd (wait_until 6 (\<lambda>s. s = 1)
         \<lparr>shared = 0::nat, owns_lock = True, clock = 0::64 word,
          wakes = [(5, 0), (7, 2), (9, 1)], log = []\<rparr>)) = 7
    \<and> wakes (snd (wait_until 6 (\<lambda>s. s = 1)
         \<lparr>shared = 0::nat, owns_lock = True, clock = 0::64 word,
          wakes = [(5, 0), (7, 2), (9, 1)], log = []\<rparr>)) = [(9, 1)]"
    using wait_until_bounded
      [OF finite, of "\<lparr>shared = 0::nat, owns_lock = True, clock = 0::64 word,
          wakes = [(5, 0), (7, 2), (9, 1)], log = []\<rparr>" "\<lambda>s. s = 1"]
    by simp
  have expired: "fst (wait_until 6 (\<lambda>s. s = 1)
         \<lparr>shared = 0::nat, owns_lock = True, clock = 10::64 word, wakes = [], log = []\<rparr>)
       = Returns False
    \<and> clock (snd (wait_until 6 (\<lambda>s. s = 1)
         \<lparr>shared = 0::nat, owns_lock = True, clock = 10::64 word, wakes = [], log = []\<rparr>))
       = 10"
    using wait_until_bounded
      [OF finite, of "\<lparr>shared = 0::nat, owns_lock = True, clock = 10::64 word, wakes = [], log = []\<rparr>"
        "\<lambda>s. s = 1"]
    by simp
  have quiet: "fst (wait_until 6 (\<lambda>s. s = 1)
         \<lparr>shared = 0::nat, owns_lock = True, clock = 0::64 word, wakes = [(5, 0)], log = []\<rparr>)
       = Returns False
    \<and> clock (snd (wait_until 6 (\<lambda>s. s = 1)
         \<lparr>shared = 0::nat, owns_lock = True, clock = 0::64 word, wakes = [(5, 0)], log = []\<rparr>))
       = 6"
    using wait_until_bounded
      [OF finite, of "\<lparr>shared = 0::nat, owns_lock = True, clock = 0::64 word, wakes = [(5, 0)], log = []\<rparr>"
        "\<lambda>s. s = 1"]
    by simp
  from finite woken expired quiet show ?thesis
    by simp
qed

text \<open>
  Claim C7. With the largest time point as deadline, \<^verbatim>\<open>wait_until\<close> enters the
  unbounded \<^verbatim>\<open>wait(lock, pred)\<close> and adds no call of the bounded wait to the log:
  neither the predicate overload of \<^verbatim>\<open>condition_variable::wait_until\<close> nor the
  timed blocking call under it. This holds for every waiter and predicate.
\<close>

theorem wait_until_max_never_bounded:
  "filter is_bounded_call (log (snd (wait_until time_point_max p w))) = filter is_bounded_call (log w)
   \<and> (\<exists>evs. log (snd (wait_until time_point_max p w)) = log w @ Call_Wait_Pred # evs)"
proof -
  obtain evs where "log (snd (cv_wait_loop p (logged Call_Wait_Pred w))) = log (logged Call_Wait_Pred w) @ evs"
    "filter is_bounded_call evs = []"
    using cv_wait_loop_log_any [of p "logged Call_Wait_Pred w"] by blast
  then show ?thesis
    by (simp add: wait_until_max and_then_const)
qed

text \<open>
  Claim C8. The test for "no deadline" is equality with the largest time point. Every
  other time point is strictly below it, and for each of them \<^verbatim>\<open>wait_until\<close> is the
  bounded wait of the condition variable, which returns \<open>false\<close> when the predicate
  stays false and the thread resumes at or after the deadline. With the largest time point
  itself the call is the unbounded wait followed by \<open>return true\<close>, and never yields
  \<open>false\<close>.
\<close>

theorem wait_until_sentinel_exact:
  "(tp <s time_point_max \<longleftrightarrow> tp \<noteq> time_point_max)
   \<and> (tp <s time_point_max \<longrightarrow>
        wait_until tp p w = cv_wait_until_pred tp p w
        \<and> (\<exists>evs. log (snd (wait_until tp p w)) = log w @ Call_Wait_Until_Pred tp # evs)
        \<and> fst (wait_until tp (\<lambda>s. False)
              \<lparr>shared = s, owns_lock = True, clock = c, wakes = [(time_point_max, s)], log = []\<rparr>)
            = Returns False)
   \<and> wait_until time_point_max p w =
        and_then (cv_wait_pred p w) (\<lambda>u w'. (Returns True, w'))
   \<and> fst (wait_until time_point_max p w) \<noteq> Returns False"
proof -
  have "fst (wait_until tp (\<lambda>s. False)
              \<lparr>shared = s, owns_lock = True, clock = c, wakes = [(time_point_max, s)], log = []\<rparr>)
            = Returns False" if "tp \<noteq> time_point_max"
    using that
    by (simp add: wait_until_not_max cv_wait_until_loop_timeout le_time_point_max)
  moreover have "\<exists>evs. log (snd (wait_until tp p w)) = log w @ Call_Wait_Until_Pred tp # evs"
    if "tp \<noteq> time_point_max"
  proof (cases "owns_lock w")
    case True
    then have "owns_lock (logged (Call_Wait_Until_Pred tp) w)"
      by simp
    from cv_wait_until_loop_log [OF this, where p = p and tp = tp] that show ?thesis
      by (auto simp: wait_until_not_max)
  next
    case False
    with that show ?thesis
      by (cases "p (shared w)")
        (simp_all add: wait_until_not_max cv_wait_until_loop_true cv_wait_until_loop_unowned)
  qed
  moreover have "fst (wait_until time_point_max p w) \<noteq> Returns False"
    by (simp add: wait_until_max and_then_const split: outcome.splits)
  ultimately show ?thesis
    by (auto simp: below_time_point_max [symmetric] wait_until_def)
qed

theorem wait_until_sentinel_exact_witness:
  "(time_point_max - 1 :: 64 word) <s time_point_max
   \<and> wait_until (time_point_max - 1 :: 64 word) (\<lambda>s. s = 1)
        \<lparr>shared = 0::nat, owns_lock = True, clock = 0, wakes = [], log = []\<rparr>
      = cv_wait_until_pred (time_point_max - 1) (\<lambda>s. s = 1)
        \<lparr>shared = 0::nat, owns_lock = True, clock = 0, wakes = [], log = []\<rparr>
   \<and> fst (wait_until (time_point_max - 1 :: 64 word) (\<lambda>s. False)
        \<lparr>shared = (), owns_lock = True, clock = 0, wakes = [(time_point_max, ())], log = []\<rparr>)
      = Returns False"
proof -
  have "(time_point_max - 1 :: 64 word) <s time_point_max"
    by (simp add: time_point_max_def)
  then show ?thesis
    using wait_until_sentinel_exact [of "time_point_max - 1 :: 64 word" "\<lambda>s. s = 1"
          "\<lparr>shared = 0::nat, owns_lock = True, clock = 0, wakes = [], log = []\<rparr>" "()" 0]
    by blast
qed

text \<open>
  Claim C9. When the deadline is not the largest time point and already lies before the
  clock's reading at the call, the first thing done under the lock is still an evaluation
  of the predicate. If it holds, the call returns \<open>true\<close> without blocking. If it does
  not, the call returns at its next resumption with the value the predicate has then.
\<close>

theorem wait_until_expired_deadline:
  assumes "tp \<noteq> time_point_max" and "tp <s clock w" and "owns_lock w"
  shows "(\<exists>evs. log (snd (wait_until tp p w)) =
            log w @ Call_Wait_Until_Pred tp # Pred_Eval True (p (shared w)) # evs)
    \<and> (p (shared w) \<longrightarrow>
         wait_until tp p w =
           (Returns True, logged (Pred_Eval True True) (logged (Call_Wait_Until_Pred tp) w)))
    \<and> (\<forall>k rest. \<not> p (shared w) \<and> wakes w = k # rest \<and> clock w \<le>s fst k \<longrightarrow>
         wait_until tp p w =
           (Returns (p (snd k)),
            logged (Pred_Eval True (p (snd k)))
              (resume k rest (logged (Wait_Until tp)
                (logged (Pred_Eval True False) (logged (Call_Wait_Until_Pred tp) w))))))"
proof -
  let ?w = "logged (Call_Wait_Until_Pred tp) w"
  have own: "owns_lock ?w"
    using assms(3) by simp
  have eq: "wait_until tp p w = cv_wait_until_loop tp p ?w"
    using assms(1) by (rule wait_until_not_max)
  have first: "\<exists>evs. log (snd (wait_until tp p w)) =
            log w @ Call_Wait_Until_Pred tp # Pred_Eval True (p (shared w)) # evs"
    using cv_wait_until_loop_log [OF own, where p = p and tp = tp] by (auto simp: eq)
  have already: "wait_until tp p w =
      (Returns True, logged (Pred_Eval True True) ?w)" if "p (shared w)"
    using that assms(3) by (simp add: eq cv_wait_until_loop_true)
  have next_wake: "wait_until tp p w =
      (Returns (p (snd k)),
       logged (Pred_Eval True (p (snd k)))
         (resume k rest (logged (Wait_Until tp) (logged (Pred_Eval True False) ?w))))"
    if "\<not> p (shared w)" "wakes w = k # rest" "clock w \<le>s fst k" for k rest
  proof -
    have "tp \<le>s fst k"
      using assms(2) that(3) by (simp add: word_sle_eq word_sless_alt)
    then show ?thesis
      using that(1,2) own by (simp add: eq cv_wait_until_loop_timeout)
  qed
  from first already next_wake show ?thesis
    by blast
qed

theorem wait_until_expired_deadline_witness:
  "(6::64 word) \<noteq> time_point_max \<and> (6::64 word) <s 10
   \<and> wait_until 6 (\<lambda>s. s = 1)
        \<lparr>shared = 1::nat, owns_lock = True, clock = 10::64 word, wakes = [], log = []\<rparr>
      = (Returns True,
         \<lparr>shared = 1, owns_lock = True, clock = 10, wakes = [],
          log = [Call_Wait_Until_Pred 6, Pred_Eval True True]\<rparr>)"
  using wait_until_expired_deadline
    [of "6::64 word" "\<lparr>shared = 1::nat, owns_lock = True, clock = 10::64 word, wakes = [], log = []\<rparr>"
        "\<lambda>s. s = 1"]
  by (simp add: time_point_max_def logged_def)

section \<open>Claims about \<^verbatim>\<open>reverse_lock_guard\<close>\<close>

text \<open>
  Claim C4. Let the thread \<open>me\<close> hold the mutex \<open>a\<close>. Constructing the guard releases
  \<open>a\<close> at once, so that any thread can lock it. Destroying the guard in a state where
  \<open>a\<close> is free locks \<open>a\<close> for \<open>me\<close> again and touches no other mutex; with nothing
  in between, the mutexes are exactly as before the construction. Whenever the block
  around the guard is left, normally or by an exception, \<open>me\<close> holds \<open>a\<close> again.
\<close>

theorem reverse_lock_guard_round_trip:
  assumes "\<sigma> a = Some me"
  shows "reverse_lock_guard_ctor me a \<sigma> = (Returns \<lparr>m = a\<rparr>, \<sigma>(a := None))
    \<and> (\<forall>other. mutex_lock other a (\<sigma>(a := None)) = (Returns (), \<sigma>(a \<mapsto> other)))
    \<and> reverse_lock_guard_dtor me \<lparr>m = a\<rparr> (\<sigma>(a := None)) = (Returns (), \<sigma>)
    \<and> (\<forall>\<sigma>2. \<sigma>2 a = None \<longrightarrow>
          reverse_lock_guard_dtor me \<lparr>m = a\<rparr> \<sigma>2 = (Returns (), \<sigma>2(a \<mapsto> me)))
    \<and> (\<forall>body :: mutexes \<Rightarrow> ('x + 'r) \<times> mutexes. snd (body (\<sigma>(a := None))) a = None \<longrightarrow>
          inverted_scope me a body \<sigma> =
            (Returns (fst (body (\<sigma>(a := None)))), (snd (body (\<sigma>(a := None))))(a \<mapsto> me)))
    \<and> (\<forall>(body :: mutexes \<Rightarrow> ('x + 'r) \<times> mutexes) exit.
          fst (inverted_scope me a body \<sigma>) = Returns exit \<longrightarrow>
          snd (inverted_scope me a body \<sigma>) a = Some me)"
proof -
  have ctor: "reverse_lock_guard_ctor me a \<sigma> = (Returns \<lparr>m = a\<rparr>, \<sigma>(a := None))"
    using assms by (simp add: reverse_lock_guard_ctor_def mutex_unlock_def)
  have free: "mutex_lock other a (\<sigma>(a := None)) = (Returns (), \<sigma>(a \<mapsto> other))" for other
    by (simp add: mutex_lock_def)
  have dtor: "reverse_lock_guard_dtor me \<lparr>m = a\<rparr> \<sigma>2 = (Returns (), \<sigma>2(a \<mapsto> me))"
    if "\<sigma>2 a = None" for \<sigma>2
    using that by (simp add: reverse_lock_guard_dtor_def mutex_lock_def)
  have restored: "reverse_lock_guard_dtor me \<lparr>m = a\<rparr> (\<sigma>(a := None)) = (Returns (), \<sigma>)"
    using assms dtor [of "\<sigma>(a := None)"] by (simp add: fun_upd_idem)
  have scope: "inverted_scope me a body \<sigma> =
      (Returns (fst (body (\<sigma>(a := None)))), (snd (body (\<sigma>(a := None))))(a \<mapsto> me))"
    if "snd (body (\<sigma>(a := None))) a = None" for body :: "mutexes \<Rightarrow> ('x + 'r) \<times> mutexes"
    using that dtor [of "snd (body (\<sigma>(a := None)))"]
    by (simp add: inverted_scope_def ctor split_beta)
  have held: "snd (inverted_scope me a body \<sigma>) a = Some me"
    if "fst (inverted_scope me a body \<sigma>) = Returns exit"
    for body :: "mutexes \<Rightarrow> ('x + 'r) \<times> mutexes" and exit
    using that
    by (auto simp: inverted_scope_def ctor split_beta reverse_lock_guard_dtor_def mutex_lock_def
        split: option.splits if_splits)
  from ctor free restored dtor scope held show ?thesis
    by blast
qed

theorem reverse_lock_guard_round_trip_witness:
  "((\<lambda>x. None)(0 \<mapsto> 1) :: mutexes) 0 = Some 1
   \<and> reverse_lock_guard_ctor 1 0 ((\<lambda>x. None)(0 \<mapsto> 1)) = (Returns \<lparr>m = 0\<rparr>, \<lambda>x. None)
   \<and> inverted_scope 1 0 (\<lambda>\<sigma>. (Inl ''error'' :: string + nat, \<sigma>(5 \<mapsto> 2))) ((\<lambda>x. None)(0 \<mapsto> 1))
       = (Returns (Inl ''error''), (\<lambda>x. None)(5 \<mapsto> 2, 0 \<mapsto> 1))"
proof -
  let ?\<sigma> = "(\<lambda>x. None)(0 \<mapsto> 1) :: mutexes"
  let ?body = "\<lambda>\<sigma> :: mutexes. (Inl ''error'' :: string + nat, \<sigma>(5 \<mapsto> 2))"
  have held: "?\<sigma> 0 = Some 1"
    by simp
  note round_trip =
    reverse_lock_guard_round_trip [of ?\<sigma> 0 1, where ?'x = string and ?'r = nat, OF held]
  have free: "?\<sigma>(0 := None) = (\<lambda>x. None)"
    by simp
  have ctor: "reverse_lock_guard_ctor 1 0 ?\<sigma> = (Returns \<lparr>m = 0\<rparr>, \<lambda>x. None)"
    using round_trip [THEN conjunct1] unfolding free .
  note scope = round_trip [THEN conjunct2, THEN conjunct2, THEN conjunct2, THEN conjunct2,
      THEN conjunct1, rule_format, of ?body, unfolded free]
  have "inverted_scope 1 0 ?body ?\<sigma> = (Returns (Inl ''error''), (\<lambda>x. None)(5 \<mapsto> 2, 0 \<mapsto> 1))"
    using scope by simp
  with held ctor show ?thesis
    by (intro conjI) assumption+
qed

section \<open>Claims about \<^verbatim>\<open>thread_guard\<close>\<close>

lemma thread_guard_dtor_eq:
  "thread_guard_dtor run g \<sigma> =
     (case thread g of
        None \<Rightarrow> (Returns (),
          \<sigma>\<lparr>completing := run (pre_join g) (completing \<sigma>), trace := trace \<sigma> @ [Invoke (pre_join g)]\<rparr>)
      | Some t \<Rightarrow>
          (if t \<in> run (pre_join g) (completing \<sigma>) then Returns () else Blocks,
           \<sigma>\<lparr>completing := run (pre_join g) (completing \<sigma>),
             trace := trace \<sigma> @ [Invoke (pre_join g), Join t]\<rparr>))"
  by (simp add: thread_guard_dtor_def invoke_def joinable_def thread_join_def split: option.splits)

text \<open>
  Claim C1. The destructor of every guard first calls the pre-join action and only then,
  and only if the thread handle is joinable, joins the thread it owns. It returns exactly
  when the handle is not joinable or the owned thread runs to its end once the action has
  been called; otherwise it is blocked in the join.
\<close>

theorem thread_guard_dtor_order:
  "trace (snd (thread_guard_dtor run g \<sigma>)) =
     trace \<sigma> @ Invoke (pre_join g) # (if joinable (thread g) then [Join (the (thread g))] else [])
   \<and> fst (thread_guard_dtor run g \<sigma>) =
       (if joinable (thread g) \<and> the (thread g) \<notin> run (pre_join g) (completing \<sigma>)
        then Blocks else Returns ())
   \<and> completing (snd (thread_guard_dtor run g \<sigma>)) = run (pre_join g) (completing \<sigma>)"
  by (simp add: thread_guard_dtor_eq joinable_def split: option.splits)

text \<open>
  What the destructor does to a moved-from guard, whatever the callable type leaves
  behind after a move: no join, and a call of the \<^verbatim>\<open>pre_join\<close> member.
\<close>

lemma thread_guard_dtor_moved_from:
  "thread_guard_dtor run (snd (thread_guard_move moved_from g)) \<sigma> =
     (Returns (),
      \<sigma>\<lparr>completing := run (moved_from (pre_join g)) (completing \<sigma>),
        trace := trace \<sigma> @ [Invoke (moved_from (pre_join g))]\<rparr>)"
  by (simp add: thread_guard_dtor_eq thread_guard_move_def thread_move_def)

text \<open>
  Claim C5 says that destroying a moved-from guard does nothing at all, so that across a
  move the pre-join action and the join happen once, for the destination. The destructor
  skips the join for a moved-from guard, but it calls the \<^verbatim>\<open>pre_join\<close> member before
  it looks at the thread handle. Here a guard is constructed for the body \<open>loop\<close> with
  the action \<open>stop\<close>, a callable that its move constructor leaves unchanged and whose
  call lets thread 0 finish. The guard is moved from, and the moved-from guard is
  destroyed: \<open>stop\<close> is called and thread 0 is told to finish. When the destination is
  destroyed afterwards, \<open>stop\<close> is called a second time before the one join.
\<close>

theorem moved_from_guard_dtor_invokes_pre_join:
  "thread_guard_dtor (\<lambda>pj done. insert 0 done)
     (snd (thread_guard_move id
        (fst (thread_guard_ctor ''loop'' ''stop'' \<lparr>next_id = 0, completing = {}, trace = []\<rparr>))))
     (snd (thread_guard_ctor ''loop'' ''stop'' \<lparr>next_id = 0, completing = {}, trace = []\<rparr>))
   = (Returns (),
      \<lparr>next_id = 1, completing = {0}, trace = [Start 0 ''loop'', Invoke ''stop'']\<rparr>)
   \<and> thread_guard_dtor (\<lambda>pj done. insert 0 done)
     (fst (thread_guard_move id
        (fst (thread_guard_ctor ''loop'' ''stop'' \<lparr>next_id = 0, completing = {}, trace = []\<rparr>))))
     \<lparr>next_id = 1, completing = {0}, trace = [Start 0 ''loop'', Invoke ''stop'']\<rparr>
   = (Returns (),
      \<lparr>next_id = 1, completing = {0},
       trace = [Start 0 ''loop'', Invoke ''stop'', Invoke ''stop'', Join 0]\<rparr>)"
  by (simp add: thread_guard_dtor_eq thread_guard_move_def thread_move_def thread_guard_ctor_def
      thread_ctor_def)

text \<open>
  Claim C6, as stated, has the class offer both move construction and move assignment.
  The class deletes its move assignment operator.
\<close>

theorem thread_guard_move_assignment_counterexample:
  "\<not> (thread_guard_declares Move_Ctor = Defined \<and> thread_guard_declares Move_Assign = Defined
      \<and> thread_guard_declares Copy_Ctor = Deleted \<and> thread_guard_declares Copy_Assign = Deleted)"
  by simp

text \<open>
  Claim C6, amended. Ownership is transferred by move construction only: the new guard
  takes the thread handle and the pre-join action of the source, and the source is left
  with an empty thread handle, which is not joinable. Move assignment, copy construction
  and copy assignment are all deleted.
\<close>

theorem thread_guard_move_only_by_construction:
  "thread_guard_declares Move_Ctor = Defined
   \<and> thread_guard_declares Move_Assign = Deleted
   \<and> thread_guard_declares Copy_Ctor = Deleted
   \<and> thread_guard_declares Copy_Assign = Deleted
   \<and> fst (thread_guard_move moved_from rhs) = \<lparr>thread = thread rhs, pre_join = pre_join rhs\<rparr>
   \<and> thread (snd (thread_guard_move moved_from rhs)) = None
   \<and> \<not> joinable (thread (snd (thread_guard_move moved_from rhs)))"
  by (simp add: thread_guard_move_def thread_move_def joinable_def)

text \<open>
  Claim C10. \<^verbatim>\<open>make_thread_guard(f, pj)\<close> is the constructor called with the same
  arguments: it starts the same thread, stores the same pre-join action, and the guard it
  returns is destroyed in the same way.
\<close>

theorem make_thread_guard_is_constructor:
  "make_thread_guard f pj \<sigma> = thread_guard_ctor f pj \<sigma>
   \<and> make_thread_guard f pj \<sigma> =
       (\<lparr>thread = Some (next_id \<sigma>), pre_join = pj\<rparr>,
        \<sigma>\<lparr>next_id := Suc (next_id \<sigma>), trace := trace \<sigma> @ [Start (next_id \<sigma>) f]\<rparr>)
   \<and> thread_guard_dtor run (fst (make_thread_guard f pj \<sigma>)) \<sigma>' =
       thread_guard_dtor run (fst (thread_guard_ctor f pj \<sigma>)) \<sigma>'"
  by (simp add: make_thread_guard_def thread_guard_ctor_def thread_ctor_def)

end
